theory Spec2Isabelle
  imports Complex_Main
begin

section \<open>Board: the sparse occupancy grid (core/Board.ts)\<close>

text \<open>
  The class \<^verbatim>\<open>Board\<close> wraps one JavaScript \<^verbatim>\<open>Map<string, Color>\<close> whose keys are
  \<^verbatim>\<open>posKey(x, y) = `${x},${y}`\<close>. On integer coordinates this rendering is injective and
  \<^verbatim>\<open>entries()\<close> parses it back, so the model keys the map by the coordinate pair itself.
  A JavaScript Map iterates in insertion order and \<^verbatim>\<open>set\<close> on a key that is already
  present replaces the value in place; the model is therefore an association list that
  is read in order, with \<open>map_set\<close> for \<^verbatim>\<open>Map.prototype.set\<close>. A list stands for a Map
  exactly when no key occurs twice (\<open>board_ok\<close>). Coordinates are integers (the
  negated zero of \<^verbatim>\<open>mirroredY\<close> renders as \<^verbatim>\<open>0\<close> again); time stamps are real numbers.
\<close>

datatype Color = Red | Green | Blue | Magenta | Cyan | Yellow | Orange

type_synonym Position = "int \<times> int"

type_synonym Board = "(Position \<times> Color) list"

definition board_ok :: "Board \<Rightarrow> bool" where
  "board_ok b = distinct (map fst b)"

fun map_has :: "Board \<Rightarrow> Position \<Rightarrow> bool" where
  "map_has [] k = False"
| "map_has ((k', c') # rest) k = (if k' = k then True else map_has rest k)"

fun map_get :: "Board \<Rightarrow> Position \<Rightarrow> Color option" where
  "map_get [] k = None"
| "map_get ((k', c') # rest) k = (if k' = k then Some c' else map_get rest k)"

fun map_set :: "Position \<Rightarrow> Color \<Rightarrow> Board \<Rightarrow> Board" where
  "map_set k c [] = [(k, c)]"
| "map_set k c ((k', c') # rest) =
     (if k' = k then (k, c) # rest else (k', c') # map_set k c rest)"

text \<open>\<^verbatim>\<open>new Board(entries)\<close>: the Map constructor inserts the entries one by one.\<close>

definition new_Board :: "(Position \<times> Color) list \<Rightarrow> Board" where
  "new_Board es = fold (\<lambda>(pos, color) m. map_set pos color m) es []"

definition fromPositions :: "Position list \<Rightarrow> Color \<Rightarrow> Board" where
  "fromPositions positions color =
     fold (\<lambda>pos boardAccumulator. map_set pos color boardAccumulator) positions []"

definition board_get :: "Board \<Rightarrow> Position \<Rightarrow> Color option" where
  "board_get b pos = map_get b pos"

definition entries :: "Board \<Rightarrow> (Position \<times> Color) list" where
  "entries b = b"

definition modified :: "(Position \<Rightarrow> Position) \<Rightarrow> Board \<Rightarrow> Board" where
  "modified transform b = new_Board (map (\<lambda>(pos, color). (transform pos, color)) (entries b))"

definition modifiedFilter :: "(Position \<Rightarrow> Position option) \<Rightarrow> Board \<Rightarrow> Board" where
  "modifiedFilter transform b =
     fold (\<lambda>(pos, color) newBoard.
             case transform pos of
               None \<Rightarrow> newBoard
             | Some newPos \<Rightarrow> map_set newPos color newBoard)
          (entries b) []"

definition transposed :: "Board \<Rightarrow> Board" where
  "transposed b = modified (\<lambda>(x, y). (y, x)) b"

definition mirroredY :: "Board \<Rightarrow> Board" where
  "mirroredY b = modified (\<lambda>(x, y). (x, - y)) b"

definition rotated :: "Board \<Rightarrow> Board" where
  "rotated b = transposed (mirroredY b)"

definition rotatedCounter :: "Board \<Rightarrow> Board" where
  "rotatedCounter b = rotated (rotated (rotated b))"

definition negativeShift :: "Board \<Rightarrow> int \<times> int" where
  "negativeShift b =
     fold (\<lambda>(pos, color) (minX, minY). (min minX (fst pos), min minY (snd pos)))
          (entries b) (0, 0)"

definition shifted :: "Board \<Rightarrow> int \<times> int \<Rightarrow> Board" where
  "shifted b shift = modified (\<lambda>(x, y). (x + fst shift, y + snd shift)) b"

text \<open>
  \<^verbatim>\<open>merged\<close> copies this board's Map and walks the other board's entries; the first key
  already present makes it return \<^verbatim>\<open>null\<close> (here \<open>None\<close>).
\<close>

fun merged_loop :: "Board \<Rightarrow> (Position \<times> Color) list \<Rightarrow> Board option" where
  "merged_loop newMap [] = Some newMap"
| "merged_loop newMap ((key, color) # rest) =
     (if map_has newMap key then None else merged_loop (map_set key color newMap) rest)"

definition merged :: "Board \<Rightarrow> Board \<Rightarrow> Board option" where
  "merged b other = merged_loop b other"

definition contained :: "Board \<Rightarrow> int \<Rightarrow> int \<Rightarrow> bool" where
  "contained b bX bY =
     list_all (\<lambda>(pos, color). fst pos \<ge> 0 \<and> fst pos < bX \<and> snd pos \<ge> 0 \<and> snd pos < bY)
              (entries b)"

text \<open>
  \<^verbatim>\<open>Array.from({ length: n }, (_, i) => i)\<close> is the list \<open>0, \<dots>, n - 1\<close>, empty when
  \<open>n \<le> 0\<close>: the integer interval \<open>[0..n - 1]\<close>.
\<close>

definition wholeLines :: "Board \<Rightarrow> int \<Rightarrow> int \<Rightarrow> int list" where
  "wholeLines b bX bY =
     filter (\<lambda>y. list_all (\<lambda>h. h) (map (\<lambda>x. map_has b (x, y)) [0..bX - 1])) [0..bY - 1]"

definition killLine :: "int \<Rightarrow> Board \<Rightarrow> Board" where
  "killLine y b =
     modifiedFilter (\<lambda>(x, oy).
        if oy > y then Some (x, oy)
        else if oy = y then None
        else Some (x, oy + 1)) b"

section \<open>Piece catalog (core/constants.ts and Utils.ts)\<close>

text \<open>
  The repository holds the game logic twice: \<^verbatim>\<open>GameLogic.ts\<close> reads the table
  \<^verbatim>\<open>possiblePieces\<close> of \<^verbatim>\<open>Utils.ts\<close> and \<^verbatim>\<open>hooks/useGameLogic.ts\<close> reads
  \<^verbatim>\<open>POSSIBLE_PIECES\<close> of \<^verbatim>\<open>core/constants.ts\<close>. The two tables differ in the order of
  the T cells and in which of the S and Z shapes is cyan; the functions below take the
  table as the argument \<open>pieces\<close>, so every result holds for both.
\<close>

definition POSSIBLE_PIECES :: "Board list" where
  "POSSIBLE_PIECES =
     [fromPositions [(0, 0), (0, 1), (1, 0), (1, 1)] Red,
      fromPositions [(0, 0), (1, 0), (2, 0), (1, 1)] Green,
      fromPositions [(0, 0), (1, 0), (2, 0), (3, 0)] Blue,
      fromPositions [(0, 0), (1, 0), (2, 0), (0, 1)] Orange,
      fromPositions [(0, 0), (1, 0), (2, 0), (2, 1)] Yellow,
      fromPositions [(1, 0), (2, 0), (0, 1), (1, 1)] Cyan,
      fromPositions [(0, 0), (1, 0), (1, 1), (2, 1)] Magenta]"

definition possiblePieces :: "Board list" where
  "possiblePieces =
     [fromPositions [(0, 0), (0, 1), (1, 0), (1, 1)] Red,
      fromPositions [(0, 0), (1, 0), (1, 1), (2, 0)] Green,
      fromPositions [(0, 0), (1, 0), (2, 0), (3, 0)] Blue,
      fromPositions [(0, 0), (1, 0), (2, 0), (0, 1)] Orange,
      fromPositions [(0, 0), (1, 0), (2, 0), (2, 1)] Yellow,
      fromPositions [(0, 0), (1, 0), (1, 1), (2, 1)] Cyan,
      fromPositions [(1, 0), (2, 0), (0, 1), (1, 1)] Magenta]"

record Metrics =
  blockPixels :: int
  boardX :: int
  boardY :: int

definition DEFAULT_METRICS :: Metrics where
  "DEFAULT_METRICS = \<lparr>blockPixels = 20, boardX = 8, boardY = 20\<rparr>"

definition FALL_INTERVAL :: real where "FALL_INTERVAL = 700"
definition FLASH_DURATION :: real where "FLASH_DURATION = 50"
definition FLASH_STAGES :: int where "FLASH_STAGES = 18"

definition MOVE_DIRECTIONS :: "string \<Rightarrow> (int \<times> int) option" where
  "MOVE_DIRECTIONS key =
     (if key = ''ArrowRight'' then Some (1, 0)
      else if key = ''ArrowLeft'' then Some (- 1, 0)
      else if key = ''ArrowDown'' then Some (0, 1)
      else None)"

section \<open>Game state machine (hooks/useGameLogic.ts, GameLogic.ts)\<close>

datatype GameState =
    Falling (board: Board) (falling: Board) (shift: "int \<times> int") (timeSinceFall: real)
  | Flashing (board: Board) (stage: int) (lastStageSwitch: real) (lines: "int list")
  | GameOver (board: Board)

text \<open>
  What a transition reads from outside the state: the two \<^verbatim>\<open>Math.random()\<close> draws of
  \<^verbatim>\<open>createNewFalling\<close>, already floored (\<open>pieceIdx\<close> below the table length,
  \<open>rotations\<close> in \<open>{0, 1, 2, 3}\<close>), and the clocks \<^verbatim>\<open>performance.now()\<close> and
  \<^verbatim>\<open>Date.now()\<close>.
\<close>

record Draws =
  pieceIdx :: nat
  rotations :: nat
  perfNow :: real
  dateNow :: real

text \<open>
  The wall-kick loop \<^verbatim>\<open>for (const d of [[0, 0], [-1, 0]])\<close>, written out in the source at
  every rotation site: it yields the first \<open>testShift\<close> at which the adjusted piece both
  merges with the board and is contained, \<open>None\<close> when the loop falls through.
\<close>

fun kickLoop :: "Board \<Rightarrow> Metrics \<Rightarrow> Board \<Rightarrow> int \<times> int \<Rightarrow> (int \<times> int) list \<Rightarrow> (int \<times> int) option" where
  "kickLoop b metrics adjusted sh [] = None"
| "kickLoop b metrics adjusted sh (d # ds) =
     (let testShift = (fst sh + fst d, snd sh + snd d);
          testFalling = shifted adjusted testShift;
          mergedB = merged b testFalling;
          containedB = contained testFalling (boardX metrics) (boardY metrics)
      in if mergedB \<noteq> None \<and> containedB then Some testShift
         else kickLoop b metrics adjusted sh ds)"

definition kicks :: "(int \<times> int) list" where
  "kicks = [(0, 0), (- 1, 0)]"

text \<open>The loop \<^verbatim>\<open>for (let i = 0; i < rotations; i++)\<close> of \<^verbatim>\<open>createNewFalling\<close>.\<close>

fun rotationLoop :: "Board \<Rightarrow> Metrics \<Rightarrow> nat \<Rightarrow> Board \<Rightarrow> int \<times> int \<Rightarrow> Board \<times> (int \<times> int)" where
  "rotationLoop b metrics 0 fallingP sh = (fallingP, sh)"
| "rotationLoop b metrics (Suc n) fallingP sh =
     (let rotatedP = rotatedCounter fallingP;
          (minX, minY) = negativeShift rotatedP;
          adjusted = shifted rotatedP (- minX, - minY)
      in case kickLoop b metrics adjusted sh kicks of
           Some testShift \<Rightarrow> rotationLoop b metrics n adjusted testShift
         | None \<Rightarrow> rotationLoop b metrics n fallingP sh)"

definition createNewFalling :: "Board list \<Rightarrow> Draws \<Rightarrow> Board \<Rightarrow> Metrics \<Rightarrow> GameState" where
  "createNewFalling pieces rnd b metrics =
     (let fallingP = pieces ! pieceIdx rnd;
          sh = (0, 0);
          initialShifted = shifted fallingP sh
      in if merged b initialShifted = None
            \<or> \<not> contained initialShifted (boardX metrics) (boardY metrics)
         then GameOver b
         else (case rotationLoop b metrics (rotations rnd) fallingP sh of
                 (fallingP', sh') \<Rightarrow> Falling b fallingP' sh' (perfNow rnd)))"

text \<open>
  \<^verbatim>\<open>attemptRotation\<close> of \<^verbatim>\<open>hooks/useGameLogic.ts\<close>; it is only called on a Falling state.
  \<^verbatim>\<open>GameLogic.ts\<close> has the same statements inline in both rotation branches of
  \<^verbatim>\<open>handleKeyDown\<close>, once with \<^verbatim>\<open>rotatedCounter\<close> and once with \<^verbatim>\<open>rotated\<close>.
\<close>

definition attemptRotation :: "GameState \<Rightarrow> Metrics \<Rightarrow> bool \<Rightarrow> GameState" where
  "attemptRotation state metrics clockwise =
     (let rotatedP = (if clockwise then rotated (falling state)
                      else rotatedCounter (falling state));
          (minX, minY) = negativeShift rotatedP;
          adjusted = shifted rotatedP (- minX, - minY)
      in case kickLoop (board state) metrics adjusted (shift state) kicks of
           Some testShift \<Rightarrow>
             Falling (board state) adjusted testShift (timeSinceFall state)
         | None \<Rightarrow> state)"

fun handleKeyDown :: "Board list \<Rightarrow> Draws \<Rightarrow> Metrics \<Rightarrow> string \<Rightarrow> GameState \<Rightarrow> GameState" where
  "handleKeyDown pieces rnd metrics key (Falling b fallingP sh t) =
     (case MOVE_DIRECTIONS key of
        Some move \<Rightarrow>
          (let newShift = (fst sh + fst move, snd sh + snd move);
               shiftedP = shifted fallingP newShift;
               mergedB = merged b shiftedP;
               containedB = contained shiftedP (boardX metrics) (boardY metrics)
           in if mergedB \<noteq> None \<and> containedB then Falling b fallingP newShift t
              else if snd move = 1 then
                (case merged b (shifted fallingP sh) of
                   Some mergedBoard \<Rightarrow>
                     (let ls = wholeLines mergedBoard (boardX metrics) (boardY metrics)
                      in if length ls \<noteq> 0
                         then Flashing mergedBoard 0 (dateNow rnd) ls
                         else createNewFalling pieces rnd mergedBoard metrics)
                 | None \<Rightarrow> Falling b fallingP sh t)
              else Falling b fallingP sh t)
      | None \<Rightarrow>
          (if key = ''ArrowUp'' then attemptRotation (Falling b fallingP sh t) metrics False
           else if key = '' '' then attemptRotation (Falling b fallingP sh t) metrics True
           else Falling b fallingP sh t))"
| "handleKeyDown pieces rnd metrics key (GameOver b) =
     (if key = ''Enter'' then createNewFalling pieces rnd [] metrics else GameOver b)"
| "handleKeyDown pieces rnd metrics key (Flashing b st lss ls) = Flashing b st lss ls"

text \<open>
  The hook keeps, beside the React state, the refs \<^verbatim>\<open>lastTimeRef\<close> and
  \<^verbatim>\<open>flashAccumulatorRef\<close>; together they are the state one animation frame updates.
  \<^verbatim>\<open>a % b\<close> on numbers is the remainder of the truncated quotient.
\<close>

record Hook =
  gameState :: GameState
  lastTimeRef :: "real option"
  flashAccumulatorRef :: real

definition js_rem :: "real \<Rightarrow> real \<Rightarrow> real" where
  "js_rem a b = a - b * of_int (if 0 \<le> a / b then \<lfloor>a / b\<rfloor> else \<lceil>a / b\<rceil>)"

fun killLines :: "int list \<Rightarrow> Board \<Rightarrow> Board" where
  "killLines [] newBoard = newBoard"
| "killLines (line # rest) newBoard = killLines rest (killLine line newBoard)"

definition gameLoop :: "Board list \<Rightarrow> Draws \<Rightarrow> Metrics \<Rightarrow> real \<Rightarrow> Hook \<Rightarrow> Hook" where
  "gameLoop pieces rnd metrics currentTime h =
     (case lastTimeRef h of
        None \<Rightarrow> h\<lparr>lastTimeRef := Some currentTime\<rparr>
      | Some lastTime \<Rightarrow>
          (let deltaTime = currentTime - lastTime;
               h1 = h\<lparr>lastTimeRef := Some currentTime\<rparr>
           in case gameState h1 of
                Falling b fallingP sh t \<Rightarrow>
                  (if currentTime - t \<ge> FALL_INTERVAL then
                     (let newShift = (fst sh, snd sh + 1);
                          shiftedP = shifted fallingP newShift;
                          mergedB = merged b shiftedP;
                          containedB = contained shiftedP (boardX metrics) (boardY metrics)
                      in if mergedB \<noteq> None \<and> containedB
                         then h1\<lparr>gameState := Falling b fallingP newShift currentTime\<rparr>
                         else (case merged b (shifted fallingP sh) of
                                 Some mergedBoard \<Rightarrow>
                                   (let ls = wholeLines mergedBoard (boardX metrics) (boardY metrics)
                                    in if length ls \<noteq> 0
                                       then h1\<lparr>gameState := Flashing mergedBoard 0 currentTime ls,
                                               flashAccumulatorRef := 0\<rparr>
                                       else h1\<lparr>gameState :=
                                               createNewFalling pieces rnd mergedBoard metrics\<rparr>)
                               | None \<Rightarrow> h1\<lparr>gameState := GameOver b\<rparr>))
                   else h1)
              | Flashing b st lss ls \<Rightarrow>
                  (let acc = flashAccumulatorRef h1 + deltaTime
                   in if acc \<ge> FLASH_DURATION then
                        (let h2 = h1\<lparr>flashAccumulatorRef := js_rem acc FLASH_DURATION\<rparr>;
                             stage' = st + 1
                         in if stage' < FLASH_STAGES
                            then h2\<lparr>gameState := Flashing b stage' currentTime ls\<rparr>
                            else h2\<lparr>gameState :=
                                    createNewFalling pieces rnd (killLines ls b) metrics\<rparr>)
                      else h1\<lparr>flashAccumulatorRef := acc\<rparr>)
              | GameOver b \<Rightarrow> h1))"

text \<open>
  The hook as one automaton: it starts from \<^verbatim>\<open>createNewFalling(new Board(), metrics)\<close>
  with both refs cleared, and every event (a key press or an animation frame, each with
  the draws it may consume) is applied to the current state in the order received.
\<close>

datatype Event = KeyDown string Draws | Frame real Draws

definition initialHook :: "Board list \<Rightarrow> Draws \<Rightarrow> Metrics \<Rightarrow> Hook" where
  "initialHook pieces rnd metrics =
     \<lparr>gameState = createNewFalling pieces rnd [] metrics,
      lastTimeRef = None, flashAccumulatorRef = 0\<rparr>"

fun step :: "Board list \<Rightarrow> Metrics \<Rightarrow> Hook \<Rightarrow> Event \<Rightarrow> Hook" where
  "step pieces metrics h (KeyDown key rnd) =
     h\<lparr>gameState := handleKeyDown pieces rnd metrics key (gameState h)\<rparr>"
| "step pieces metrics h (Frame currentTime rnd) = gameLoop pieces rnd metrics currentTime h"

definition run :: "Board list \<Rightarrow> Metrics \<Rightarrow> Hook \<Rightarrow> Event list \<Rightarrow> Hook" where
  "run pieces metrics h events = foldl (step pieces metrics) h events"

section \<open>Auxiliary definitions\<close>

text \<open>
  What \<^verbatim>\<open>modifiedFilter\<close> does to one entry: drop it when the transform returns \<^verbatim>\<open>null\<close>,
  move it (keeping its color) otherwise.
\<close>

definition keep :: "(Position \<Rightarrow> Position option) \<Rightarrow> Position \<times> Color \<Rightarrow> (Position \<times> Color) option" where
  "keep f e = (case f (fst e) of None \<Rightarrow> None | Some q \<Rightarrow> Some (q, snd e))"

text \<open>Where \<^verbatim>\<open>killLine(y)\<close> sends a position that is not in row \<open>y\<close>.\<close>

definition killMove :: "int \<Rightarrow> Position \<Rightarrow> Position" where
  "killMove y p = (if snd p > y then p else (fst p, snd p + 1))"

text \<open>The one-column board of the kill-line scenario.\<close>

definition shiftExample :: Board where
  "shiftExample = new_Board [((0, 0), Red), ((0, 1), Green), ((0, 2), Blue)]"

text \<open>Boards for the merge scenarios: two that fit together and one that overlaps.\<close>

definition mergeLeft :: Board where
  "mergeLeft = new_Board [((0, 0), Red), ((1, 0), Green)]"

definition mergeRight :: Board where
  "mergeRight = new_Board [((0, 1), Blue)]"

definition mergeClash :: Board where
  "mergeClash = new_Board [((3, 3), Cyan), ((1, 0), Blue)]"

text \<open>The renormalization written out at every rotation site:
  \<^verbatim>\<open>const [minX, minY] = rotated.negativeShift(); rotated.shifted([-minX, -minY])\<close>.\<close>

definition renormalized :: "Board \<Rightarrow> Board" where
  "renormalized b = (case negativeShift b of (minX, minY) \<Rightarrow> shifted b (- minX, - minY))"

text \<open>The T piece of the catalog.\<close>

definition tPiece :: Board where
  "tPiece = fromPositions [(0, 0), (1, 0), (2, 0), (1, 1)] Green"

text \<open>The 4 by 3 grid of the line-detection scenario.\<close>

definition lineExample :: Board where
  "lineExample = new_Board [((0, 0), Red), ((0, 1), Green), ((1, 1), Blue), ((2, 1), Cyan),
                            ((3, 1), Magenta), ((2, 2), Yellow), ((3, 2), Orange)]"

text \<open>The acceptance test of every placement: the piece at the shift merges with the
  locked board (\<^verbatim>\<open>merged\<close> is not \<^verbatim>\<open>null\<close>) and is contained in the board bounds.\<close>

definition placed :: "Metrics \<Rightarrow> Board \<Rightarrow> Board \<Rightarrow> int \<times> int \<Rightarrow> bool" where
  "placed metrics b fallingP sh =
     (merged b (shifted fallingP sh) \<noteq> None
      \<and> contained (shifted fallingP sh) (boardX metrics) (boardY metrics))"

text \<open>The invariant of the Falling state.\<close>

definition fallingOk :: "Metrics \<Rightarrow> GameState \<Rightarrow> bool" where
  "fallingOk metrics s =
     (case s of
        Falling b fallingP sh t \<Rightarrow> placed metrics b fallingP sh
      | Flashing b st lss ls \<Rightarrow> True
      | GameOver b \<Rightarrow> True)"

text \<open>Draws for the scenarios: the I piece, one quarter turn, both clocks at 0.\<close>

definition spawnDraws :: Draws where
  "spawnDraws = \<lparr>pieceIdx = 2, rotations = 1, perfNow = 0, dateNow = 0\<rparr>"

text \<open>The lock sequence, written out in both \<^verbatim>\<open>handleKeyDown\<close> and \<^verbatim>\<open>gameLoop\<close>: what
  follows a successful merge of the piece into the locked board.\<close>

definition afterLock :: "Board list \<Rightarrow> Draws \<Rightarrow> Metrics \<Rightarrow> real \<Rightarrow> Board \<Rightarrow> GameState" where
  "afterLock pieces rnd metrics now mergedBoard =
     (let ls = wholeLines mergedBoard (boardX metrics) (boardY metrics)
      in if length ls \<noteq> 0 then Flashing mergedBoard 0 now ls
         else createNewFalling pieces rnd mergedBoard metrics)"

text \<open>The I piece standing upright, as the spawn with \<open>spawnDraws\<close> leaves it.\<close>

definition iUpright :: Board where
  "iUpright = [((0, 3), Blue), ((0, 2), Blue), ((0, 1), Blue), ((0, 0), Blue)]"

text \<open>A short game: a move to the right, the first animation frame (which only
  records the time), and a frame 700 ms later (one gravity step).\<close>

definition openingEvents :: "Event list" where
  "openingEvents = [KeyDown ''ArrowRight'' spawnDraws, Frame 0 spawnDraws, Frame 700 spawnDraws]"

text \<open>Where the cell at position \<open>p\<close> ends up once the rows \<open>ls\<close> are cleared: it moves
  down by one row for every cleared row below it (with a greater index).\<close>

definition dropped :: "int list \<Rightarrow> Position \<Rightarrow> Position" where
  "dropped ls p = (fst p, snd p + int (length (filter (\<lambda>l. l > snd p) ls)))"

text \<open>The flash scenario: an I piece and two O pieces have filled row 19 of the 8 by 20
  board, the O pieces reaching into row 18; the lock has recorded the line 19.\<close>

definition flashBoard :: Board where
  "flashBoard = [((0, 19), Blue), ((1, 19), Blue), ((2, 19), Blue), ((3, 19), Blue),
                 ((4, 18), Red), ((4, 19), Red), ((5, 18), Red), ((5, 19), Red),
                 ((6, 18), Red), ((6, 19), Red), ((7, 18), Red), ((7, 19), Red)]"

definition flashStart :: Hook where
  "flashStart = \<lparr>gameState = Flashing flashBoard 0 0 (wholeLines flashBoard 8 20),
                 lastTimeRef = Some 0, flashAccumulatorRef = 0\<rparr>"

text \<open>Seventeen animation frames, 50 ms apart, and the hook they lead to.\<close>

definition flashFrames :: "Event list" where
  "flashFrames = map (\<lambda>currentTime. Frame currentTime spawnDraws)
     [50, 100, 150, 200, 250, 300, 350, 400, 450, 500, 550, 600, 650, 700, 750, 800, 850]"

definition flashLast :: Hook where
  "flashLast = \<lparr>gameState = Flashing flashBoard 17 850 [19],
                lastTimeRef = Some 850, flashAccumulatorRef = 0\<rparr>"

definition clearedBoard :: Board where
  "clearedBoard = [((4, 19), Red), ((5, 19), Red), ((6, 19), Red), ((7, 19), Red)]"

section \<open>Boards as lists without repeated keys\<close>

lemma map_has_iff: "map_has b k \<longleftrightarrow> k \<in> fst ` set b"
  by (induction b) (auto split: if_splits)

lemma map_get_map_of: "map_get b k = map_of b k"
  by (induction b) auto

lemma map_set_fresh: "k \<notin> fst ` set b \<Longrightarrow> map_set k c b = b @ [(k, c)]"
  by (induction b) auto

lemma fold_map_set_distinct:
  "distinct (map fst (acc @ es)) \<Longrightarrow>
   fold (\<lambda>(pos, color) m. map_set pos color m) es acc = acc @ es"
proof (induction es arbitrary: acc)
  case Nil
  then show ?case by simp
next
  case (Cons e es)
  obtain k c where e: "e = (k, c)" by (cases e)
  from Cons.prems have fresh: "k \<notin> fst ` set acc" by (auto simp: e)
  have d: "distinct (map fst ((acc @ [(k, c)]) @ es))" using Cons.prems by (simp add: e)
  show ?case using Cons.IH[OF d] fresh by (simp add: e map_set_fresh)
qed

lemma new_Board_distinct: "distinct (map fst es) \<Longrightarrow> new_Board es = es"
  using fold_map_set_distinct[of "[]" es] by (simp add: new_Board_def)

lemma modified_inj:
  assumes "board_ok b" "inj_on f (fst ` set b)"
  shows "modified f b = map (\<lambda>(pos, color). (f pos, color)) b"
proof -
  have keys: "map fst (map (\<lambda>(pos, color). (f pos, color)) b) = map f (map fst b)"
    by (induction b) auto
  have "distinct (map f (map fst b))"
    unfolding distinct_map[of f "map fst b"] using assms by (simp add: board_ok_def)
  then have d: "distinct (map fst (map (\<lambda>(pos, color). (f pos, color)) b))"
    by (simp only: keys)
  show ?thesis
    unfolding modified_def entries_def by (rule new_Board_distinct[OF d])
qed

lemma keep_pair: "keep f (k, c) = (case f k of None \<Rightarrow> None | Some q \<Rightarrow> Some (q, c))"
  by (simp add: keep_def split: option.splits)

lemma fold_modifiedFilter_distinct:
  "distinct (map fst (acc @ List.map_filter (keep f) es)) \<Longrightarrow>
   fold (\<lambda>(pos, color) newBoard.
           case f pos of None \<Rightarrow> newBoard | Some newPos \<Rightarrow> map_set newPos color newBoard)
        es acc = acc @ List.map_filter (keep f) es"
proof (induction es arbitrary: acc)
  case Nil
  then show ?case by (simp add:)
next
  case (Cons e es)
  obtain k c where e: "e = (k, c)" by (cases e)
  show ?case
  proof (cases "f k")
    case None
    then show ?thesis using Cons by (simp add: e keep_pair)
  next
    case (Some q)
    from Cons.prems have fresh: "q \<notin> fst ` set acc"
      by (auto simp: e keep_pair Some)
    have d: "distinct (map fst ((acc @ [(q, c)]) @ List.map_filter (keep f) es))"
      using Cons.prems by (simp add: e keep_pair Some)
    show ?thesis using Cons.IH[OF d] fresh
      by (simp add: e keep_pair Some map_set_fresh)
  qed
qed

lemma killMove_inj: "snd p \<noteq> y \<Longrightarrow> snd q \<noteq> y \<Longrightarrow> killMove y p = killMove y q \<Longrightarrow> p = q"
  by (cases p; cases q) (auto simp: killMove_def split: if_splits)

lemma map_filter_kill:
  "List.map_filter (keep (\<lambda>(x, oy). if oy > y then Some (x, oy) else if oy = y then None else Some (x, oy + 1))) b
   = map (\<lambda>(p, c). (killMove y p, c)) (filter (\<lambda>(p, c). snd p \<noteq> y) b)"
  by (induction b) (auto simp: keep_pair killMove_def split: prod.splits)

lemma killLine_list:
  assumes "board_ok b"
  shows "killLine y b = map (\<lambda>(p, c). (killMove y p, c)) (filter (\<lambda>(p, c). snd p \<noteq> y) b)"
proof -
  let ?r = "map (\<lambda>(p, c). (killMove y p, c)) (filter (\<lambda>(p, c). snd p \<noteq> y) b)"
  have keys: "map fst ?r = map (killMove y) (filter (\<lambda>p. snd p \<noteq> y) (map fst b))"
    by (induction b) auto
  have "distinct (filter (\<lambda>p. snd p \<noteq> y) (map fst b))"
    using assms by (simp add: board_ok_def)
  moreover have "inj_on (killMove y) (set (filter (\<lambda>p. snd p \<noteq> y) (map fst b)))"
    by (rule inj_onI) (auto dest: killMove_inj)
  ultimately have "distinct (map fst ?r)"
    unfolding keys distinct_map by blast
  then show ?thesis
    using fold_modifiedFilter_distinct[of "[]" _ b]
    by (simp add: killLine_def modifiedFilter_def entries_def map_filter_kill)
qed

lemma killLine_ok:
  assumes "board_ok b"
  shows "board_ok (killLine y b)"
proof -
  let ?r = "map (\<lambda>(p, c). (killMove y p, c)) (filter (\<lambda>(p, c). snd p \<noteq> y) b)"
  have keys: "map fst ?r = map (killMove y) (filter (\<lambda>p. snd p \<noteq> y) (map fst b))"
    by (induction b) auto
  have "distinct (filter (\<lambda>p. snd p \<noteq> y) (map fst b))"
    using assms by (simp add: board_ok_def)
  moreover have "inj_on (killMove y) (set (filter (\<lambda>p. snd p \<noteq> y) (map fst b)))"
    by (rule inj_onI) (auto dest: killMove_inj)
  ultimately have "distinct (map fst ?r)"
    unfolding keys distinct_map by blast
  then show ?thesis
    by (simp only: killLine_list[OF assms] board_ok_def)
qed

lemma map_get_kill:
  "map_get (map (\<lambda>(p, c). (killMove y p, c)) (filter (\<lambda>(p, c). snd p \<noteq> y) b)) (x, r)
   = (if r > y then map_get b (x, r) else map_get b (x, r - 1))"
  by (induction b) (auto simp: killMove_def)

section \<open>Line clearing\<close>

text \<open>
  Claim C2. For every board and every row index \<open>y\<close>, \<^verbatim>\<open>killLine(y)\<close> removes row \<open>y\<close>,
  moves every cell of a row with index below \<open>y\<close> to the next row index (color kept) and
  leaves every cell of a row with index above \<open>y\<close> where it is. Read off the result: a
  position in a row \<open>r > y\<close> holds what the board held there, and a position in a row
  \<open>r \<le> y\<close> holds what the board held one row higher up, at \<open>r - 1 < y\<close>; nothing of the
  old row \<open>y\<close> is read.
\<close>

theorem killLine_rows:
  assumes "board_ok b"
  shows "board_get (killLine y b) (x, r)
         = (if r > y then board_get b (x, r) else board_get b (x, r - 1))"
  unfolding board_get_def killLine_list[OF assms] by (rule map_get_kill)

lemma shiftExample_eval: "shiftExample = [((0, 0), Red), ((0, 1), Green), ((0, 2), Blue)]"
  by (simp add: shiftExample_def new_Board_def)

lemma killLine_shiftExample: "killLine 1 shiftExample = [((0, 1), Red), ((0, 2), Blue)]"
  by (simp add: shiftExample_eval killLine_def modifiedFilter_def entries_def)

theorem killLine_rows_witness:
  "board_ok shiftExample \<and> board_get (killLine 1 shiftExample) (0, 1) = Some Red
   \<and> board_get (killLine 1 shiftExample) (0, 2) = Some Blue"
proof -
  have ok: "board_ok shiftExample" by (simp add: shiftExample_eval board_ok_def)
  show ?thesis
    using ok killLine_rows[OF ok, of 1 0 1] killLine_rows[OF ok, of 1 0 2]
    by (simp add: board_get_def shiftExample_eval)
qed

text \<open>
  Claim C3, as stated: on the one-column board with Red, Green, Blue in rows 0, 1, 2,
  \<^verbatim>\<open>killLine(1)\<close> would leave Red at \<open>(0,0)\<close>, put Blue at \<open>(0,1)\<close> and leave row 2
  empty. The code moves the rows with the smaller index instead, so this fails.
\<close>

theorem killLine_example_counterexample:
  "\<not> (board_get (killLine 1 shiftExample) (0, 0) = Some Red
      \<and> board_get (killLine 1 shiftExample) (0, 1) = Some Blue
      \<and> board_get (killLine 1 shiftExample) (0, 2) = None)"
  by (simp add: killLine_shiftExample board_get_def)

text \<open>
  Claim C3, amended: \<^verbatim>\<open>killLine(1)\<close> on that board yields Red at \<open>(0,1)\<close> (row 0 moved
  down into row 1), Blue unchanged at \<open>(0,2)\<close>, and no cell in row 0.
\<close>

theorem killLine_example:
  "killLine 1 shiftExample = [((0, 1), Red), ((0, 2), Blue)]
   \<and> board_get (killLine 1 shiftExample) (0, 0) = None
   \<and> board_get (killLine 1 shiftExample) (0, 1) = Some Red
   \<and> board_get (killLine 1 shiftExample) (0, 2) = Some Blue"
  by (simp add: killLine_shiftExample board_get_def)

text \<open>
  Claim C10. \<^verbatim>\<open>killLine(y)\<close> never puts two surviving cells on one position: the cells
  of the result are in bijection with the cells of the board outside row \<open>y\<close>, each with
  its color, so the result has as many cells as the board has outside row \<open>y\<close>, and its
  keys are again pairwise different.
\<close>

theorem killLine_bijection:
  assumes "board_ok b"
  shows "bij_betw (\<lambda>(p, c). (killMove y p, c)) {e \<in> set b. snd (fst e) \<noteq> y}
           (set (entries (killLine y b)))
         \<and> length (entries (killLine y b))
             = length (entries b) - length (filter (\<lambda>(p, c). snd p = y) (entries b))
         \<and> board_ok (killLine y b)"
proof -
  let ?g = "\<lambda>(p, c). (killMove y p, c)"
  have flt: "set (filter (\<lambda>(p, c). snd p \<noteq> y) b) = {e \<in> set b. snd (fst e) \<noteq> y}"
    by auto
  have inj: "inj_on ?g {e \<in> set b. snd (fst e) \<noteq> y}"
    by (rule inj_onI) (auto dest: killMove_inj)
  have img: "?g ` {e \<in> set b. snd (fst e) \<noteq> y} = set (entries (killLine y b))"
    unfolding entries_def killLine_list[OF assms] set_map flt ..
  have bij: "bij_betw ?g {e \<in> set b. snd (fst e) \<noteq> y} (set (entries (killLine y b)))"
    using inj img by (simp only: bij_betw_def simp_thms)
  have "length (filter (\<lambda>(p, c). snd p = y) b) + length (filter (\<lambda>(p, c). snd p \<noteq> y) b)
        = length b"
    using sum_length_filter_compl[of "\<lambda>(p, c). snd p = y" b]
    by (simp add: case_prod_unfold)
  then have len: "length (entries (killLine y b))
             = length (entries b) - length (filter (\<lambda>(p, c). snd p = y) (entries b))"
    by (simp add: entries_def killLine_list[OF assms])
  show ?thesis using bij len killLine_ok[OF assms] by (simp only: simp_thms)
qed

theorem killLine_bijection_witness:
  "board_ok shiftExample
   \<and> bij_betw (\<lambda>(p, c). (killMove 1 p, c)) {e \<in> set shiftExample. snd (fst e) \<noteq> 1}
        (set (entries (killLine 1 shiftExample)))
   \<and> length (entries (killLine 1 shiftExample)) = 2
   \<and> board_ok (killLine 1 shiftExample)"
proof -
  have ok: "board_ok shiftExample" by (simp add: shiftExample_eval board_ok_def)
  have len: "length (entries shiftExample)
             - length (filter (\<lambda>(p, c). snd p = 1) (entries shiftExample)) = 2"
    by (simp add: shiftExample_eval entries_def)
  show ?thesis using ok killLine_bijection[OF ok, of 1] len by simp
qed

section \<open>Merging\<close>

lemma merged_loop_append:
  "distinct (map fst other) \<Longrightarrow>
   merged_loop acc other
   = (if fst ` set acc \<inter> fst ` set other = {} then Some (acc @ other) else None)"
proof (induction other arbitrary: acc)
  case Nil
  then show ?case by simp
next
  case (Cons e other)
  obtain k c where e: "e = (k, c)" by (cases e)
  from Cons.prems have d: "distinct (map fst other)" and k: "k \<notin> fst ` set other"
    by (auto simp: e)
  show ?case
  proof (cases "k \<in> fst ` set acc")
    case True
    then show ?thesis by (auto simp: e map_has_iff)
  next
    case False
    have "fst ` set (acc @ [(k, c)]) \<inter> fst ` set other = {}
          \<longleftrightarrow> fst ` set acc \<inter> fst ` set ((k, c) # other) = {}"
      using k False by auto
    then show ?thesis
      using False Cons.IH[OF d, of "acc @ [(k, c)]"]
      by (simp add: e map_has_iff map_set_fresh)
  qed
qed

lemma merged_append:
  "board_ok other \<Longrightarrow>
   merged b other = (if fst ` set b \<inter> fst ` set other = {} then Some (b @ other) else None)"
  unfolding merged_def board_ok_def by (rule merged_loop_append)

lemma map_of_append_comm:
  assumes "fst ` set a \<inter> fst ` set b = {}"
  shows "map_of (a @ b) = map_of (b @ a)"
proof -
  have "dom (map_of b) \<inter> dom (map_of a) = {}"
    using assms by (auto simp: dom_map_of_conv_image_fst)
  then show ?thesis by (simp add: map_add_comm)
qed

text \<open>
  Claim C7. For all boards \<open>A\<close> and \<open>B\<close>, \<^verbatim>\<open>A.merged(B)\<close> fails exactly when
  \<^verbatim>\<open>B.merged(A)\<close> fails, and when both succeed the two results hold the same cells: the
  same set of entries, and the same color (or none) at every position.
\<close>

theorem merged_symmetric:
  assumes "board_ok A" "board_ok B"
  shows "(merged A B = None \<longleftrightarrow> merged B A = None)
         \<and> (\<forall>r1 r2. merged A B = Some r1 \<and> merged B A = Some r2 \<longrightarrow>
               set (entries r1) = set (entries r2) \<and> (\<forall>pos. board_get r1 pos = board_get r2 pos))"
proof -
  have ab: "merged A B = (if fst ` set A \<inter> fst ` set B = {} then Some (A @ B) else None)"
    by (rule merged_append[OF assms(2)])
  have ba: "merged B A = (if fst ` set A \<inter> fst ` set B = {} then Some (B @ A) else None)"
    using merged_append[OF assms(1), of B] by (simp add: Int_commute)
  show ?thesis
  proof (cases "fst ` set A \<inter> fst ` set B = {}")
    case True
    then show ?thesis
      using map_of_append_comm[OF True]
      by (auto simp: ab ba entries_def board_get_def map_get_map_of)
  next
    case False
    then show ?thesis by (simp add: ab ba)
  qed
qed

theorem merged_symmetric_witness:
  "board_ok mergeLeft \<and> board_ok mergeRight \<and> board_ok mergeClash
   \<and> merged mergeLeft mergeRight = Some [((0, 0), Red), ((1, 0), Green), ((0, 1), Blue)]
   \<and> merged mergeRight mergeLeft = Some [((0, 1), Blue), ((0, 0), Red), ((1, 0), Green)]
   \<and> set (entries [((0, 0), Red), ((1, 0), Green), ((0, 1), Blue)])
       = set (entries [((0, 1), Blue), ((0, 0), Red), ((1, 0), Green)])
   \<and> merged mergeLeft mergeClash = None \<and> merged mergeClash mergeLeft = None"
proof -
  have l: "mergeLeft = [((0, 0), Red), ((1, 0), Green)]"
    by (simp add: mergeLeft_def new_Board_def)
  have r: "mergeRight = [((0, 1), Blue)]"
    by (simp add: mergeRight_def new_Board_def)
  have c: "mergeClash = [((3, 3), Cyan), ((1, 0), Blue)]"
    by (simp add: mergeClash_def new_Board_def)
  have okl: "board_ok mergeLeft" by (simp add: l board_ok_def)
  have okr: "board_ok mergeRight" by (simp add: r board_ok_def)
  have okc: "board_ok mergeClash" by (simp add: c board_ok_def)
  have m1: "merged mergeLeft mergeRight = Some [((0, 0), Red), ((1, 0), Green), ((0, 1), Blue)]"
    by (simp add: l r merged_def)
  have m2: "merged mergeRight mergeLeft = Some [((0, 1), Blue), ((0, 0), Red), ((1, 0), Green)]"
    by (simp add: l r merged_def)
  have m3: "merged mergeLeft mergeClash = None"
    by (simp add: l c merged_def)
  show ?thesis
    using okl okr okc m1 m2 m3
      merged_symmetric[OF okl okr] merged_symmetric[OF okl okc]
    by (simp only: simp_thms)
qed

section \<open>Rotation\<close>

lemma modified_ok:
  assumes "board_ok b" "inj_on f (fst ` set b)"
  shows "board_ok (modified f b)"
proof -
  have keys: "map fst (map (\<lambda>(pos, color). (f pos, color)) b) = map f (map fst b)"
    by (induction b) auto
  have "distinct (map f (map fst b))"
    unfolding distinct_map[of f "map fst b"] using assms by (simp add: board_ok_def)
  then show ?thesis
    by (simp only: modified_inj[OF assms] board_ok_def keys)
qed

lemma rotated_list:
  assumes "board_ok b"
  shows "rotated b = map (\<lambda>((x, y), c). ((- y, x), c)) b" and "board_ok (rotated b)"
proof -
  have i1: "inj_on (\<lambda>(x::int, y::int). (x, - y)) (fst ` set b)"
    by (rule inj_onI) auto
  have m: "mirroredY b = map (\<lambda>(pos, color). ((\<lambda>(x, y). (x, - y)) pos, color)) b"
    unfolding mirroredY_def by (rule modified_inj[OF assms i1])
  have okm: "board_ok (mirroredY b)"
    unfolding mirroredY_def by (rule modified_ok[OF assms i1])
  have i2: "inj_on (\<lambda>(x::int, y::int). (y, x)) (fst ` set (mirroredY b))"
    by (rule inj_onI) auto
  have t: "rotated b = map (\<lambda>(pos, color). ((\<lambda>(x, y). (y, x)) pos, color)) (mirroredY b)"
    unfolding rotated_def transposed_def by (rule modified_inj[OF okm i2])
  show "rotated b = map (\<lambda>((x, y), c). ((- y, x), c)) b"
    unfolding t m by (simp add: case_prod_unfold)
  show "board_ok (rotated b)"
    unfolding rotated_def transposed_def by (rule modified_ok[OF okm i2])
qed

text \<open>
  Claim C8. For every piece \<open>P\<close>, four quarter turns give back the cells of \<open>P\<close>, each
  with its color. A quarter turn sends \<open>(x, y)\<close> to \<open>(- y, x)\<close>, so the fourth turn
  restores every position exactly: the boards are equal before any normalization, hence
  also after both are normalized the way the rotation sites do it.
\<close>

theorem rotated_four_times:
  assumes "board_ok P"
  shows "rotated (rotated (rotated (rotated P))) = P
         \<and> set (entries (rotated (rotated (rotated (rotated P))))) = set (entries P)
         \<and> set (entries (renormalized (rotated (rotated (rotated (rotated P))))))
             = set (entries (renormalized P))"
proof -
  let ?g = "\<lambda>((x::int, y::int), c::Color). ((- y, x), c)"
  have ok1: "board_ok (rotated P)" by (rule rotated_list(2)[OF assms])
  have ok2: "board_ok (rotated (rotated P))" by (rule rotated_list(2)[OF ok1])
  have ok3: "board_ok (rotated (rotated (rotated P)))" by (rule rotated_list(2)[OF ok2])
  have r1: "rotated P = map ?g P" by (rule rotated_list(1)[OF assms])
  have r2: "rotated (rotated P) = map ?g (map ?g P)"
    using rotated_list(1)[OF ok1] by (simp only: r1)
  have r3: "rotated (rotated (rotated P)) = map ?g (map ?g (map ?g P))"
    using rotated_list(1)[OF ok2] by (simp only: r2)
  have r4: "rotated (rotated (rotated (rotated P))) = map ?g (map ?g (map ?g (map ?g P)))"
    using rotated_list(1)[OF ok3] by (simp only: r3)
  have "map ?g (map ?g (map ?g (map ?g P))) = P"
    by (induction P) auto
  then have "rotated (rotated (rotated (rotated P))) = P" by (simp only: r4)
  then show ?thesis by simp
qed

theorem rotated_four_times_witness:
  "board_ok tPiece
   \<and> rotated tPiece = [((0, 0), Green), ((0, 1), Green), ((0, 2), Green), ((- 1, 1), Green)]
   \<and> rotated (rotated (rotated (rotated tPiece))) = tPiece"
proof -
  have p: "tPiece = [((0, 0), Green), ((1, 0), Green), ((2, 0), Green), ((1, 1), Green)]"
    by (simp add: tPiece_def fromPositions_def)
  have ok: "board_ok tPiece" by (simp add: p board_ok_def)
  have r: "rotated tPiece = [((0, 0), Green), ((0, 1), Green), ((0, 2), Green), ((- 1, 1), Green)]"
    by (simp add: p rotated_def transposed_def mirroredY_def modified_def new_Board_def entries_def)
  show ?thesis using ok r rotated_four_times[OF ok] by simp
qed

section \<open>Line detection\<close>

lemma lineExample_eval:
  "lineExample = [((0, 0), Red), ((0, 1), Green), ((1, 1), Blue), ((2, 1), Cyan),
                  ((3, 1), Magenta), ((2, 2), Yellow), ((3, 2), Orange)]"
  by (simp add: lineExample_def new_Board_def)

lemma map_has_get: "map_has b k \<longleftrightarrow> board_get b k \<noteq> None"
  unfolding board_get_def by (induction b) (auto split: if_splits)

lemma wholeLines_sorted: "sorted_wrt (<) (wholeLines b w h)"
proof -
  have "sorted_wrt (<) [0..h - 1]"
    by (simp add: strict_sorted_iff)
  then show ?thesis
    unfolding wholeLines_def by (rule sorted_wrt_filter)
qed

lemma wholeLines_set:
  "set (wholeLines b w h)
   = {y. 0 \<le> y \<and> y < h \<and> (\<forall>x. 0 \<le> x \<and> x < w \<longrightarrow> board_get b (x, y) \<noteq> None)}"
  by (auto simp: wholeLines_def list_all_iff map_has_get)

lemma wholeLines_lineExample: "wholeLines lineExample 4 3 = [1]"
  by (simp add: wholeLines_def lineExample_eval upto.simps)

text \<open>
  Claim C9. For every board, \<^verbatim>\<open>wholeLines(width, height)\<close> returns, in strictly ascending
  order, exactly the rows \<open>y\<close> of \<open>[0, height)\<close> in which every column of \<open>[0, width)\<close> is
  occupied; on the 4 by 3 grid whose row 1 holds four cells of different colors and
  whose rows 0 and 2 are partly filled it returns \<open>[1]\<close>.
\<close>

theorem wholeLines_rows:
  "sorted_wrt (<) (wholeLines b w h)
   \<and> set (wholeLines b w h)
       = {y. 0 \<le> y \<and> y < h \<and> (\<forall>x. 0 \<le> x \<and> x < w \<longrightarrow> board_get b (x, y) \<noteq> None)}
   \<and> wholeLines lineExample 4 3 = [1]"
  using wholeLines_sorted wholeLines_set wholeLines_lineExample by (simp only: simp_thms)

theorem wholeLines_rows_witness:
  "sorted_wrt (<) (wholeLines lineExample 4 3)
   \<and> 1 \<in> set (wholeLines lineExample 4 3)
   \<and> 0 \<notin> set (wholeLines lineExample 4 3)
   \<and> board_get lineExample (1, 0) = None"
proof -
  have g: "board_get lineExample (1, 0) = None"
    by (simp add: board_get_def lineExample_eval)
  have r1: "\<forall>x. 0 \<le> x \<and> x < 4 \<longrightarrow> board_get lineExample (x, 1) \<noteq> None"
  proof (intro allI impI)
    fix x :: int assume "0 \<le> x \<and> x < 4"
    then have "x = 0 \<or> x = 1 \<or> x = 2 \<or> x = 3" by arith
    then show "board_get lineExample (x, 1) \<noteq> None"
      by (auto simp: board_get_def lineExample_eval)
  qed
  have r0: "\<not> (\<forall>x. 0 \<le> x \<and> x < 4 \<longrightarrow> board_get lineExample (x, 0) \<noteq> None)"
    using g by (intro notI) (drule spec[of _ 1], simp)
  show ?thesis
    using wholeLines_rows[of lineExample 4 3] g r1 r0 by simp
qed

text \<open>The definitions that evaluate a concrete board.\<close>

lemmas board_eval =
  shifted_def modified_def new_Board_def entries_def rotated_def rotatedCounter_def
  transposed_def mirroredY_def negativeShift_def merged_def contained_def renormalized_def
  fromPositions_def wholeLines_def

section \<open>Spawning and rotating\<close>

lemma kickLoop_placed:
  "kickLoop b m adjusted sh ds = Some testShift \<Longrightarrow> placed m b adjusted testShift"
  by (induction ds) (auto simp: placed_def Let_def split: if_splits)

lemma kickLoop_kicks:
  "kickLoop b m adjusted sh kicks
   = (if placed m b adjusted sh then Some sh
      else if placed m b adjusted (fst sh - 1, snd sh) then Some (fst sh - 1, snd sh)
      else None)"
  by (simp add: kicks_def placed_def Let_def)

lemma rotationLoop_placed:
  "placed m b fallingP sh \<Longrightarrow> rotationLoop b m n fallingP sh = (f', sh') \<Longrightarrow> placed m b f' sh'"
proof (induction n arbitrary: fallingP sh)
  case 0
  then show ?case by simp
next
  case (Suc n)
  obtain minX minY where ns: "negativeShift (rotatedCounter fallingP) = (minX, minY)"
    by (cases "negativeShift (rotatedCounter fallingP)")
  let ?adj = "shifted (rotatedCounter fallingP) (- minX, - minY)"
  show ?case
  proof (cases "kickLoop b m ?adj sh kicks")
    case None
    then have "rotationLoop b m n fallingP sh = (f', sh')"
      using Suc.prems(2) by (simp add: ns)
    then show ?thesis using Suc.IH Suc.prems(1) by blast
  next
    case (Some testShift)
    then have "rotationLoop b m n ?adj testShift = (f', sh')"
      using Suc.prems(2) by (simp add: ns)
    moreover have "placed m b ?adj testShift" by (rule kickLoop_placed[OF Some])
    ultimately show ?thesis using Suc.IH by blast
  qed
qed

lemma createNewFalling_cases:
  "createNewFalling pieces rnd b m
   = (if placed m b (pieces ! pieceIdx rnd) (0, 0)
      then Falling b (fst (rotationLoop b m (rotations rnd) (pieces ! pieceIdx rnd) (0, 0)))
                     (snd (rotationLoop b m (rotations rnd) (pieces ! pieceIdx rnd) (0, 0)))
                     (perfNow rnd)
      else GameOver b)"
  by (simp add: createNewFalling_def placed_def Let_def case_prod_unfold)

lemma createNewFalling_ok: "fallingOk m (createNewFalling pieces rnd b m)"
proof (cases "placed m b (pieces ! pieceIdx rnd) (0, 0)")
  case True
  have "placed m b (fst (rotationLoop b m (rotations rnd) (pieces ! pieceIdx rnd) (0, 0)))
                   (snd (rotationLoop b m (rotations rnd) (pieces ! pieceIdx rnd) (0, 0)))"
    by (rule rotationLoop_placed[OF True]) simp
  then show ?thesis using True by (simp add: createNewFalling_cases fallingOk_def)
next
  case False
  then show ?thesis by (simp add: createNewFalling_cases fallingOk_def)
qed

text \<open>
  Claim C5. \<^verbatim>\<open>createNewFalling(board, metrics)\<close> returns GameOver with that same board
  exactly when the selected piece at shift \<open>(0,0)\<close> fails to merge with the locked board
  or is not contained in the bounds; otherwise it returns a Falling state on that
  board, whose piece at its shift merges and is contained. The function is total (its
  loops are bounded by the drawn number of rotations and the two kicks), so there is
  no retry without end.
\<close>

theorem createNewFalling_outcome:
  assumes "pieceIdx rnd < length pieces"
  shows "(createNewFalling pieces rnd b m = GameOver b
          \<longleftrightarrow> (merged b (shifted (pieces ! pieceIdx rnd) (0, 0)) = None
               \<or> \<not> contained (shifted (pieces ! pieceIdx rnd) (0, 0)) (boardX m) (boardY m)))
         \<and> (createNewFalling pieces rnd b m \<noteq> GameOver b \<longrightarrow>
              (\<exists>f sh. createNewFalling pieces rnd b m = Falling b f sh (perfNow rnd)
                 \<and> merged b (shifted f sh) \<noteq> None
                 \<and> contained (shifted f sh) (boardX m) (boardY m)))"
proof (cases "placed m b (pieces ! pieceIdx rnd) (0, 0)")
  case True
  let ?r = "rotationLoop b m (rotations rnd) (pieces ! pieceIdx rnd) (0, 0)"
  have p: "placed m b (fst ?r) (snd ?r)"
    by (rule rotationLoop_placed[OF True]) simp
  have c: "createNewFalling pieces rnd b m = Falling b (fst ?r) (snd ?r) (perfNow rnd)"
    using True by (simp add: createNewFalling_cases)
  have "\<exists>f sh. createNewFalling pieces rnd b m = Falling b f sh (perfNow rnd)
          \<and> merged b (shifted f sh) \<noteq> None
          \<and> contained (shifted f sh) (boardX m) (boardY m)"
    using p c unfolding placed_def by blast
  moreover have "createNewFalling pieces rnd b m \<noteq> GameOver b" by (simp add: c)
  moreover have "\<not> (merged b (shifted (pieces ! pieceIdx rnd) (0, 0)) = None
               \<or> \<not> contained (shifted (pieces ! pieceIdx rnd) (0, 0)) (boardX m) (boardY m))"
    using True by (simp add: placed_def)
  ultimately show ?thesis by blast
next
  case False
  then have "createNewFalling pieces rnd b m = GameOver b"
    by (simp add: createNewFalling_cases)
  moreover have "merged b (shifted (pieces ! pieceIdx rnd) (0, 0)) = None
               \<or> \<not> contained (shifted (pieces ! pieceIdx rnd) (0, 0)) (boardX m) (boardY m)"
    using False by (simp add: placed_def)
  ultimately show ?thesis by simp
qed

lemma iPiece_eval:
  "POSSIBLE_PIECES ! 2 = [((0, 0), Blue), ((1, 0), Blue), ((2, 0), Blue), ((3, 0), Blue)]"
  by (simp add: POSSIBLE_PIECES_def fromPositions_def)

lemma shifted_iPiece:
  "shifted [((0, 0), Blue), ((1, 0), Blue), ((2, 0), Blue), ((3, 0), Blue)] (0, 0)
   = [((0, 0), Blue), ((1, 0), Blue), ((2, 0), Blue), ((3, 0), Blue)]"
  by (simp add: shifted_def modified_def new_Board_def entries_def)

theorem createNewFalling_outcome_witness:
  "pieceIdx spawnDraws < length POSSIBLE_PIECES
   \<and> createNewFalling POSSIBLE_PIECES spawnDraws [((3, 0), Red)] DEFAULT_METRICS
       = GameOver [((3, 0), Red)]
   \<and> (\<exists>f sh. createNewFalling POSSIBLE_PIECES spawnDraws [] DEFAULT_METRICS
                 = Falling [] f sh 0
         \<and> merged [] (shifted f sh) \<noteq> None
         \<and> contained (shifted f sh) 8 20)"
proof -
  have i: "pieceIdx spawnDraws < length POSSIBLE_PIECES"
    by (simp add: spawnDraws_def POSSIBLE_PIECES_def)
  have blocked: "merged [((3, 0), Red)] (shifted (POSSIBLE_PIECES ! pieceIdx spawnDraws) (0, 0)) = None"
    by (simp add: spawnDraws_def iPiece_eval shifted_iPiece merged_def)
  have free: "merged [] (shifted (POSSIBLE_PIECES ! pieceIdx spawnDraws) (0, 0)) \<noteq> None"
    by (simp add: spawnDraws_def iPiece_eval shifted_iPiece merged_def)
  have inside: "contained (shifted (POSSIBLE_PIECES ! pieceIdx spawnDraws) (0, 0))
                  (boardX DEFAULT_METRICS) (boardY DEFAULT_METRICS)"
    by (simp add: spawnDraws_def iPiece_eval shifted_iPiece contained_def entries_def
        DEFAULT_METRICS_def)
  have m: "boardX DEFAULT_METRICS = 8" "boardY DEFAULT_METRICS = 20" "perfNow spawnDraws = 0"
    by (simp_all add: DEFAULT_METRICS_def spawnDraws_def)
  show ?thesis
    using i blocked free inside
      createNewFalling_outcome[OF i, of "[((3, 0), Red)]" DEFAULT_METRICS]
      createNewFalling_outcome[OF i, of "[]" DEFAULT_METRICS]
    by (simp only: m simp_thms)
qed

section \<open>Rotation input\<close>

lemma attemptRotation_cases:
  "attemptRotation (Falling b f sh t) m clockwise
   = (let adjusted = renormalized (if clockwise then rotated f else rotatedCounter f)
      in if placed m b adjusted sh then Falling b adjusted sh t
         else if placed m b adjusted (fst sh - 1, snd sh)
           then Falling b adjusted (fst sh - 1, snd sh) t
         else Falling b f sh t)"
  by (simp add: attemptRotation_def renormalized_def kickLoop_kicks Let_def case_prod_unfold)

text \<open>
  Claim C6. A rotation input in the Falling state (\<^verbatim>\<open>ArrowUp\<close> turns counter-clockwise,
  the space bar clockwise) rotates the local piece, renormalizes it with
  \<^verbatim>\<open>negativeShift\<close> and \<^verbatim>\<open>shifted\<close>, and tries the current shift and then the shift one
  column to the left, in that order. The first of the two at which the piece merges
  with the locked board and stays in bounds is accepted: the piece and the shift
  change, the board and \<^verbatim>\<open>timeSinceFall\<close> do not. When neither fits, the state returned
  is the prior Falling state, unchanged.
\<close>

theorem rotation_input:
  assumes "key = ''ArrowUp'' \<or> key = '' ''"
  shows "handleKeyDown pieces rnd m key (Falling b f sh t)
         = (let adjusted = renormalized (if key = '' '' then rotated f else rotatedCounter f);
                fits = (\<lambda>s. merged b (shifted adjusted s) \<noteq> None
                             \<and> contained (shifted adjusted s) (boardX m) (boardY m))
            in if fits sh then Falling b adjusted sh t
               else if fits (fst sh - 1, snd sh) then Falling b adjusted (fst sh - 1, snd sh) t
               else Falling b f sh t)
         \<and> handleKeyDown pieces rnd m key (Falling b f sh t)
           = attemptRotation (Falling b f sh t) m (key = '' '')"
proof -
  have mv: "MOVE_DIRECTIONS key = None"
    using assms by (auto simp: MOVE_DIRECTIONS_def)
  have h: "handleKeyDown pieces rnd m key (Falling b f sh t)
           = attemptRotation (Falling b f sh t) m (key = '' '')"
    using assms by (auto simp: mv)
  show ?thesis
    unfolding h attemptRotation_cases by (simp add: placed_def Let_def)
qed

theorem rotation_input_witness:
  "('' '' = ''ArrowUp'' \<or> '' '' = '' '') \<and> (''ArrowUp'' = ''ArrowUp'' \<or> ''ArrowUp'' = '' '')
   \<and> handleKeyDown POSSIBLE_PIECES spawnDraws DEFAULT_METRICS '' '' (Falling [] tPiece (0, 0) 0)
       = Falling [] [((1, 0), Green), ((1, 1), Green), ((1, 2), Green), ((0, 1), Green)] (0, 0) 0
   \<and> handleKeyDown POSSIBLE_PIECES spawnDraws DEFAULT_METRICS ''ArrowUp'' (Falling [] iUpright (5, 0) 0)
       = Falling [] [((3, 0), Blue), ((2, 0), Blue), ((1, 0), Blue), ((0, 0), Blue)] (4, 0) 0
   \<and> handleKeyDown POSSIBLE_PIECES spawnDraws DEFAULT_METRICS ''ArrowUp'' (Falling [] iUpright (7, 0) 0)
       = Falling [] iUpright (7, 0) 0"
proof -
  have k1: "'' '' = ''ArrowUp'' \<or> '' '' = '' ''" by simp
  have k2: "''ArrowUp'' = ''ArrowUp'' \<or> ''ArrowUp'' = '' ''" by simp
  have w1: "handleKeyDown POSSIBLE_PIECES spawnDraws DEFAULT_METRICS '' '' (Falling [] tPiece (0, 0) 0)
       = Falling [] [((1, 0), Green), ((1, 1), Green), ((1, 2), Green), ((0, 1), Green)] (0, 0) 0"
    using rotation_input[OF k1, of POSSIBLE_PIECES spawnDraws DEFAULT_METRICS "[]" tPiece "(0, 0)" 0]
    by (simp add: board_eval tPiece_def DEFAULT_METRICS_def Let_def)
  have w2: "handleKeyDown POSSIBLE_PIECES spawnDraws DEFAULT_METRICS ''ArrowUp'' (Falling [] iUpright (5, 0) 0)
       = Falling [] [((3, 0), Blue), ((2, 0), Blue), ((1, 0), Blue), ((0, 0), Blue)] (4, 0) 0"
    using rotation_input[OF k2, of POSSIBLE_PIECES spawnDraws DEFAULT_METRICS "[]" iUpright "(5, 0)" 0]
    by (simp add: board_eval iUpright_def DEFAULT_METRICS_def Let_def)
  have w3: "handleKeyDown POSSIBLE_PIECES spawnDraws DEFAULT_METRICS ''ArrowUp'' (Falling [] iUpright (7, 0) 0)
       = Falling [] iUpright (7, 0) 0"
    using rotation_input[OF k2, of POSSIBLE_PIECES spawnDraws DEFAULT_METRICS "[]" iUpright "(7, 0)" 0]
    by (simp add: board_eval iUpright_def DEFAULT_METRICS_def Let_def)
  show ?thesis using k1 k2 w1 w2 w3 by (simp only: simp_thms)
qed

section \<open>The invariant of the Falling state\<close>

lemma fallingOk_simps:
  "fallingOk m (Falling b f sh t) = placed m b f sh"
  "fallingOk m (Flashing b st lss ls) = True"
  "fallingOk m (GameOver b) = True"
  by (simp_all add: fallingOk_def)

lemma attemptRotation_ok:
  "fallingOk m (Falling b f sh t) \<Longrightarrow> fallingOk m (attemptRotation (Falling b f sh t) m cw)"
  by (simp add: attemptRotation_cases fallingOk_simps Let_def)

lemma afterLock_ok: "fallingOk m (afterLock pieces rnd m now mergedBoard)"
  by (simp add: afterLock_def Let_def fallingOk_simps createNewFalling_ok)

lemma handleKeyDown_move:
  assumes "MOVE_DIRECTIONS key = Some move"
  shows "handleKeyDown pieces rnd m key (Falling b f sh t)
         = (if placed m b f (fst sh + fst move, snd sh + snd move)
            then Falling b f (fst sh + fst move, snd sh + snd move) t
            else if snd move = 1 then
              (case merged b (shifted f sh) of
                 Some mergedBoard \<Rightarrow> afterLock pieces rnd m (dateNow rnd) mergedBoard
               | None \<Rightarrow> Falling b f sh t)
            else Falling b f sh t)"
  by (simp add: assms Let_def placed_def afterLock_def split: option.splits)

lemma handleKeyDown_ok:
  assumes "fallingOk m s"
  shows "fallingOk m (handleKeyDown pieces rnd m key s)"
proof (cases s)
  case (Falling b f sh t)
  show ?thesis
  proof (cases "MOVE_DIRECTIONS key")
    case None
    then show ?thesis
      using assms attemptRotation_ok[of m b f sh t] by (simp add: Falling)
  next
    case (Some move)
    show ?thesis
      unfolding Falling handleKeyDown_move[OF Some]
      using assms
      by (cases "merged b (shifted f sh)") (simp_all add: Falling fallingOk_simps afterLock_ok)
  qed
next
  case (Flashing b st lss ls)
  then show ?thesis by (simp add: fallingOk_simps)
next
  case (GameOver b)
  then show ?thesis by (simp add: createNewFalling_ok fallingOk_simps)
qed

lemma gameLoop_Falling:
  assumes "lastTimeRef h = Some lastTime" "gameState h = Falling b f sh t"
  shows "gameState (gameLoop pieces rnd m currentTime h)
         = (if currentTime - t \<ge> FALL_INTERVAL then
              (if placed m b f (fst sh, snd sh + 1) then Falling b f (fst sh, snd sh + 1) currentTime
               else (case merged b (shifted f sh) of
                       Some mergedBoard \<Rightarrow> afterLock pieces rnd m currentTime mergedBoard
                     | None \<Rightarrow> GameOver b))
            else Falling b f sh t)"
  by (simp add: gameLoop_def assms Let_def placed_def afterLock_def split: option.splits)

lemma gameLoop_Flashing:
  assumes "lastTimeRef h = Some lastTime" "gameState h = Flashing b st lss ls"
  shows "gameState (gameLoop pieces rnd m currentTime h)
         = (if flashAccumulatorRef h + (currentTime - lastTime) \<ge> FLASH_DURATION then
              (if st + 1 < FLASH_STAGES then Flashing b (st + 1) currentTime ls
               else createNewFalling pieces rnd (killLines ls b) m)
            else Flashing b st lss ls)"
  by (simp add: gameLoop_def assms Let_def)

lemma gameLoop_ok:
  assumes "fallingOk m (gameState h)"
  shows "fallingOk m (gameState (gameLoop pieces rnd m currentTime h))"
proof (cases "lastTimeRef h")
  case None
  then show ?thesis using assms by (simp add: gameLoop_def)
next
  case (Some lastTime)
  show ?thesis
  proof (cases "gameState h")
    case (Falling b f sh t)
    show ?thesis
      unfolding gameLoop_Falling[OF Some Falling]
      using assms
      by (cases "merged b (shifted f sh)") (simp_all add: Falling fallingOk_simps afterLock_ok)
  next
    case (Flashing b st lss ls)
    show ?thesis
      unfolding gameLoop_Flashing[OF Some Flashing]
      by (simp add: fallingOk_simps createNewFalling_ok)
  next
    case (GameOver b)
    then show ?thesis by (simp add: gameLoop_def Some fallingOk_simps)
  qed
qed

lemma step_ok: "fallingOk m (gameState h) \<Longrightarrow> fallingOk m (gameState (step pieces m h ev))"
  by (cases ev) (simp_all add: handleKeyDown_ok gameLoop_ok)

lemma run_ok: "fallingOk m (gameState h) \<Longrightarrow> fallingOk m (gameState (run pieces m h events))"
  unfolding run_def by (induction events arbitrary: h) (simp_all add: step_ok)

lemma initialHook_ok: "fallingOk m (gameState (initialHook pieces rnd m))"
  by (simp add: initialHook_def createNewFalling_ok)

text \<open>
  Claim C1. Every Falling state the state machine produces satisfies the invariant
  that the falling piece at the current shift merges with the locked board
  (\<^verbatim>\<open>merged\<close> returns a board) and is contained in the board bounds: the initial spawn
  establishes it, every key press and every animation frame preserves it (spawn,
  accepted move, accepted rotation, gravity step or state kept), so it holds after any
  sequence of events. Hence the merge of the lock sequence, of the piece at its
  current shift, never fails.
\<close>

theorem falling_invariant:
  "fallingOk m (gameState (initialHook pieces rnd0 m))
   \<and> (fallingOk m (gameState h) \<longrightarrow> fallingOk m (gameState (step pieces m h ev)))
   \<and> fallingOk m (gameState (run pieces m (initialHook pieces rnd0 m) events))
   \<and> (gameState (run pieces m (initialHook pieces rnd0 m) events) = Falling b f sh t \<longrightarrow>
        merged b (shifted f sh) \<noteq> None
        \<and> contained (shifted f sh) (boardX m) (boardY m))"
proof -
  have r: "fallingOk m (gameState (run pieces m (initialHook pieces rnd0 m) events))"
    by (rule run_ok[OF initialHook_ok])
  then have "gameState (run pieces m (initialHook pieces rnd0 m) events) = Falling b f sh t \<longrightarrow>
        merged b (shifted f sh) \<noteq> None
        \<and> contained (shifted f sh) (boardX m) (boardY m)"
    by (auto simp: fallingOk_simps placed_def)
  then show ?thesis using r initialHook_ok step_ok by blast
qed

lemma opening_spawn:
  "initialHook POSSIBLE_PIECES spawnDraws DEFAULT_METRICS
   = \<lparr>gameState = Falling [] iUpright (0, 0) 0, lastTimeRef = None, flashAccumulatorRef = 0\<rparr>"
  by (simp add: initialHook_def createNewFalling_def spawnDraws_def iPiece_eval board_eval
      DEFAULT_METRICS_def kicks_def iUpright_def Let_def)

lemma opening_run:
  "gameState (run POSSIBLE_PIECES DEFAULT_METRICS
                (initialHook POSSIBLE_PIECES spawnDraws DEFAULT_METRICS) openingEvents)
   = Falling [] iUpright (1, 1) 700"
  unfolding opening_spawn
  by (simp add: run_def openingEvents_def gameLoop_def MOVE_DIRECTIONS_def board_eval
      DEFAULT_METRICS_def iUpright_def FALL_INTERVAL_def Let_def)

theorem falling_invariant_witness:
  "gameState (run POSSIBLE_PIECES DEFAULT_METRICS
                (initialHook POSSIBLE_PIECES spawnDraws DEFAULT_METRICS) openingEvents)
     = Falling [] iUpright (1, 1) 700
   \<and> merged [] (shifted iUpright (1, 1)) \<noteq> None
   \<and> contained (shifted iUpright (1, 1)) (boardX DEFAULT_METRICS) (boardY DEFAULT_METRICS)"
  using opening_run
    falling_invariant[of DEFAULT_METRICS POSSIBLE_PIECES spawnDraws _ _ openingEvents
      "[]" iUpright "(1, 1)" 700]
  by (simp only: simp_thms)

section \<open>Leaving the Flashing state\<close>

lemma filter_all_above: "\<forall>l\<in>set ls. k < l \<Longrightarrow> filter (\<lambda>l. l > k) ls = ls"
  by (induction ls) auto

lemma dropped_after_kill:
  assumes "\<forall>x\<in>set ls. l < x" "snd p \<noteq> l"
  shows "dropped ls (killMove l p) = dropped (l # ls) p"
    and "snd (killMove l p) \<notin> set ls \<longleftrightarrow> snd p \<notin> set (l # ls)"
proof -
  show "dropped ls (killMove l p) = dropped (l # ls) p"
  proof (cases "snd p > l")
    case True
    then show ?thesis by (simp add: dropped_def killMove_def)
  next
    case False
    then have lt: "snd p < l" using assms(2) by simp
    have a: "filter (\<lambda>x. x > snd p + 1) ls = ls"
      using assms(1) lt by (intro filter_all_above) auto
    have b: "filter (\<lambda>x. x > snd p) ls = ls"
      using assms(1) lt by (intro filter_all_above) auto
    show ?thesis using lt by (simp add: dropped_def killMove_def a b)
  qed
  show "snd (killMove l p) \<notin> set ls \<longleftrightarrow> snd p \<notin> set (l # ls)"
    using assms by (cases "snd p > l") (auto simp: killMove_def)
qed

lemma killLines_list:
  assumes "board_ok b" "sorted_wrt (<) ls"
  shows "killLines ls b
         = map (\<lambda>(p, c). (dropped ls p, c)) (filter (\<lambda>(p, c). snd p \<notin> set ls) b)"
  using assms
proof (induction ls arbitrary: b)
  case Nil
  then show ?case by (simp add: dropped_def case_prod_unfold)
next
  case (Cons l ls)
  have above: "\<forall>x\<in>set ls. l < x" and srt: "sorted_wrt (<) ls"
    using Cons.prems(2) by simp_all
  have ok': "board_ok (killLine l b)" by (rule killLine_ok[OF Cons.prems(1)])
  let ?K = "\<lambda>(p, c). (killMove l p, c :: Color)"
  have "killLines (l # ls) b = killLines ls (killLine l b)" by simp
  also have "\<dots> = map (\<lambda>(p, c). (dropped ls p, c))
                    (filter (\<lambda>(p, c). snd p \<notin> set ls) (killLine l b))"
    by (rule Cons.IH[OF ok' srt])
  also have "\<dots> = map (\<lambda>(p, c). (dropped ls p, c))
                    (filter (\<lambda>(p, c). snd p \<notin> set ls)
                       (map ?K (filter (\<lambda>(p, c). snd p \<noteq> l) b)))"
    by (simp only: killLine_list[OF Cons.prems(1)])
  also have "\<dots> = map (\<lambda>(p, c). (dropped (l # ls) p, c))
                    (filter (\<lambda>(p, c). snd p \<notin> set (l # ls)) b)"
  proof (induction b)
    case Nil
    then show ?case by simp
  next
    case (Cons e b)
    obtain p c where e: "e = (p, c)" by (cases e)
    show ?case
    proof (cases "snd p = l")
      case True
      then show ?thesis using Cons by (simp add: e)
    next
      case False
      then show ?thesis
        using Cons dropped_after_kill[OF above False] by (simp add: e)
    qed
  qed
  finally show ?case .
qed

lemma killLines_ok: "board_ok b \<Longrightarrow> board_ok (killLines ls b)"
  by (induction ls arbitrary: b) (simp_all add: killLine_ok)

lemma createNewFalling_board: "board (createNewFalling pieces rnd b m) = b"
  by (simp add: createNewFalling_cases)

lemma createNewFalling_not_Flashing: "createNewFalling pieces rnd b m \<noteq> Flashing b' st lss ls"
  by (simp add: createNewFalling_cases)

lemma flashBoard_lines: "wholeLines flashBoard 8 20 = [19]"
  by (simp add: wholeLines_def flashBoard_def upto.simps)

lemma js_rem_exact: "js_rem 50 50 = 0"
  by (simp add: js_rem_def)

lemma flash_tick:
  assumes "currentTime - lastTime = 50" "st + 1 < 18"
  shows "gameLoop pieces rnd m currentTime
           \<lparr>gameState = Flashing b st lss ls, lastTimeRef = Some lastTime,
            flashAccumulatorRef = 0\<rparr>
         = \<lparr>gameState = Flashing b (st + 1) currentTime ls, lastTimeRef = Some currentTime,
            flashAccumulatorRef = 0\<rparr>"
  using assms
  by (simp add: gameLoop_def Let_def FLASH_DURATION_def FLASH_STAGES_def js_rem_exact)

lemma flash_run: "run POSSIBLE_PIECES DEFAULT_METRICS flashStart flashFrames = flashLast"
  by (simp add: run_def flashStart_def flashFrames_def flashLast_def flashBoard_lines flash_tick)

lemma killLine_flashBoard: "killLine 19 flashBoard = clearedBoard"
  by (simp add: killLine_def modifiedFilter_def entries_def flashBoard_def clearedBoard_def)

lemma spawn_on_cleared:
  "createNewFalling POSSIBLE_PIECES spawnDraws clearedBoard DEFAULT_METRICS
   = Falling clearedBoard iUpright (0, 0) 0"
  by (simp add: createNewFalling_def spawnDraws_def iPiece_eval board_eval
      DEFAULT_METRICS_def kicks_def iUpright_def clearedBoard_def Let_def)

lemma flash_leave:
  "gameState (gameLoop POSSIBLE_PIECES spawnDraws DEFAULT_METRICS 900 flashLast)
   = Falling clearedBoard iUpright (0, 0) 0"
  by (simp add: gameLoop_def flashLast_def Let_def FLASH_DURATION_def FLASH_STAGES_def
      killLine_flashBoard spawn_on_cleared)

text \<open>
  Claim C4, as stated: once the eighteenth stage increment has made the state machine
  leave Flashing, no occupied cell would remain at a row index that was recorded in
  \<^verbatim>\<open>lines\<close>. In the flash scenario the line 19 is recorded; after eighteen frames the
  state is Falling, and the red cells that stood in row 18 now occupy row 19.
\<close>

theorem flashing_rows_counterexample:
  "lines (gameState flashStart) = [19]
   \<and> gameState (run POSSIBLE_PIECES DEFAULT_METRICS flashStart
                  (flashFrames @ [Frame 900 spawnDraws]))
      = Falling clearedBoard iUpright (0, 0) 0
   \<and> board_get clearedBoard (4, 19) = Some Red"
proof -
  have "run POSSIBLE_PIECES DEFAULT_METRICS flashStart (flashFrames @ [Frame 900 spawnDraws])
        = gameLoop POSSIBLE_PIECES spawnDraws DEFAULT_METRICS 900 flashLast"
    using flash_run by (simp add: run_def)
  then show ?thesis
    by (simp add: flash_leave flashStart_def flashBoard_lines board_get_def clearedBoard_def)
qed

text \<open>
  Claim C4, amended. The stage increment that brings the counter to \<^verbatim>\<open>FLASH_STAGES\<close> (18)
  makes the state machine leave Flashing: the rows recorded in \<^verbatim>\<open>lines\<close> are removed by
  \<^verbatim>\<open>killLine\<close> in list order and the spawn procedure runs on the result, whose locked
  board is that result. Earlier increments only advance the stage. When \<^verbatim>\<open>lines\<close> is
  strictly ascending, as \<^verbatim>\<open>wholeLines\<close> produces it, the resulting board holds exactly the
  cells of the board that were outside the recorded rows, each moved down by the
  number of recorded rows below it, with its color; the cells of the recorded rows are
  gone, but a recorded row index may be occupied again by cells that dropped into it.
\<close>

theorem flashing_completes:
  assumes "lastTimeRef h = Some lastTime"
    and "gameState h = Flashing b st lss ls"
    and "flashAccumulatorRef h + (currentTime - lastTime) \<ge> FLASH_DURATION"
    and "board_ok b" and "sorted_wrt (<) ls"
  shows "(st + 1 < FLASH_STAGES \<longrightarrow>
            gameState (gameLoop pieces rnd m currentTime h) = Flashing b (st + 1) currentTime ls)
         \<and> (st + 1 \<ge> FLASH_STAGES \<longrightarrow>
              gameState (gameLoop pieces rnd m currentTime h)
                = createNewFalling pieces rnd (killLines ls b) m
              \<and> (\<forall>b' st' lss' ls'.
                    gameState (gameLoop pieces rnd m currentTime h) \<noteq> Flashing b' st' lss' ls')
              \<and> board (gameState (gameLoop pieces rnd m currentTime h)) = killLines ls b
              \<and> killLines ls b
                  = map (\<lambda>(p, c). (dropped ls p, c)) (filter (\<lambda>(p, c). snd p \<notin> set ls) b)
              \<and> board_ok (killLines ls b))"
proof -
  have g: "gameState (gameLoop pieces rnd m currentTime h)
           = (if st + 1 < FLASH_STAGES then Flashing b (st + 1) currentTime ls
              else createNewFalling pieces rnd (killLines ls b) m)"
    using assms(3) by (simp add: gameLoop_Flashing[OF assms(1,2)])
  show ?thesis
    using killLines_list[OF assms(4,5)] killLines_ok[OF assms(4), of ls]
    by (simp add: g createNewFalling_board createNewFalling_not_Flashing)
qed

theorem flashing_completes_witness:
  "run POSSIBLE_PIECES DEFAULT_METRICS flashStart flashFrames = flashLast
   \<and> lastTimeRef flashLast = Some 850
   \<and> gameState flashLast = Flashing flashBoard 17 850 [19]
   \<and> flashAccumulatorRef flashLast + (900 - 850) \<ge> FLASH_DURATION
   \<and> board_ok flashBoard \<and> sorted_wrt (<) [19 :: int] \<and> 17 + 1 \<ge> FLASH_STAGES
   \<and> gameState (gameLoop POSSIBLE_PIECES spawnDraws DEFAULT_METRICS 900 flashLast)
       = createNewFalling POSSIBLE_PIECES spawnDraws (killLines [19] flashBoard) DEFAULT_METRICS
   \<and> board (gameState (gameLoop POSSIBLE_PIECES spawnDraws DEFAULT_METRICS 900 flashLast))
       = killLines [19] flashBoard
   \<and> killLines [19] flashBoard
       = map (\<lambda>(p, c). (dropped [19] p, c)) (filter (\<lambda>(p, c). snd p \<notin> set [19]) flashBoard)"
proof -
  have a1: "lastTimeRef flashLast = Some 850" by (simp add: flashLast_def)
  have a2: "gameState flashLast = Flashing flashBoard 17 850 [19]" by (simp add: flashLast_def)
  have a3: "flashAccumulatorRef flashLast + (900 - 850) \<ge> FLASH_DURATION"
    by (simp add: flashLast_def FLASH_DURATION_def)
  have a4: "board_ok flashBoard" by (simp add: flashBoard_def board_ok_def)
  have a5: "sorted_wrt (<) [19 :: int]" by simp
  have a6: "17 + 1 \<ge> FLASH_STAGES" by (simp add: FLASH_STAGES_def)
  have c: "gameState (gameLoop POSSIBLE_PIECES spawnDraws DEFAULT_METRICS 900 flashLast)
       = createNewFalling POSSIBLE_PIECES spawnDraws (killLines [19] flashBoard) DEFAULT_METRICS
   \<and> board (gameState (gameLoop POSSIBLE_PIECES spawnDraws DEFAULT_METRICS 900 flashLast))
       = killLines [19] flashBoard
   \<and> killLines [19] flashBoard
       = map (\<lambda>(p, c). (dropped [19] p, c)) (filter (\<lambda>(p, c). snd p \<notin> set [19]) flashBoard)"
    using a6 flashing_completes[OF a1 a2 a3 a4 a5, of POSSIBLE_PIECES spawnDraws DEFAULT_METRICS]
    by blast
  show ?thesis
    using flash_run a1 a2 a3 a4 a5 a6 c by blast
qed

end
